theory Spec2Isabelle
  imports Complex_Main "HOL-Library.AList"
begin

section \<open>DataPoblator: bulk loading of JSON record sets into DynamoDB tables\<close>

text \<open>
  A shallow embedding of \<^verbatim>\<open>src/DataPoblator.py\<close>. The store (boto3) is outside the
  program; what it answers is an input of the model: every call the program makes on the
  store is answered by an oracle that either returns or raises a fault.
\<close>

subsection \<open>Faults\<close>

text \<open>
  The program tells three things apart in what the store raises: a
  \<^verbatim>\<open>botocore.exceptions.ClientError\<close> with the code
  \<^verbatim>\<open>ProvisionedThroughputExceededException\<close> (the throttling signal), a
  \<^verbatim>\<open>ClientError\<close> with the code \<^verbatim>\<open>ResourceNotFoundException\<close>, a
  \<^verbatim>\<open>ClientError\<close> with any other code, and an exception that is not a
  \<^verbatim>\<open>ClientError\<close>.
\<close>

datatype error_code =
    ProvisionedThroughputExceededException
  | ResourceNotFoundException
  | OtherErrorCode

datatype fault = ClientError error_code | OtherException

subsection \<open>Partition of the items into batches\<close>

text \<open>
  \<^verbatim>\<open>batch_size = 25\<close>
  \<^verbatim>\<open>batches = [items[i:i + batch_size] for i in range(0, total_items, batch_size)]\<close>

  \<open>range_step i n step\<close> is Python's \<^verbatim>\<open>range(i, n, step)\<close> for a positive step,
  \<open>slice xs i j\<close> is \<^verbatim>\<open>xs[i:j]\<close> for \<open>0 \<le> i \<le> j\<close> (a slice never raises: it is cut
  at the end of the list).
\<close>

function range_step :: "nat \<Rightarrow> nat \<Rightarrow> nat \<Rightarrow> nat list" where
  "range_step i n step =
     (if step = 0 \<or> n \<le> i then [] else i # range_step (i + step) n step)"
  by pat_completeness auto
termination
  by (relation "measure (\<lambda>(i, n, step). n - i)") auto

declare range_step.simps [simp del]

definition slice :: "'a list \<Rightarrow> nat \<Rightarrow> nat \<Rightarrow> 'a list" where
  "slice xs i j = take (j - i) (drop i xs)"

definition batch_size :: nat where
  "batch_size = 25"

definition batches_of :: "nat \<Rightarrow> 'a list \<Rightarrow> 'a list list" where
  "batches_of b items = map (\<lambda>i. slice items i (i + b)) (range_step 0 (length items) b)"

definition make_batches :: "'a list \<Rightarrow> 'a list list" where
  "make_batches items = batches_of batch_size items"

subsection \<open>One batch: \<^verbatim>\<open>process_batch_with_retry\<close>\<close>

text \<open>
  What the store does to one batch is an input: \<open>put_item k j x\<close> is what
  \<^verbatim>\<open>batch_writer.put_item(Item=x)\<close> raises (or \<open>None\<close>) for the item \<open>x\<close> at position \<open>j\<close>
  of the batch in attempt \<open>k\<close>; \<open>flush_exit k\<close> is what leaving the
  \<^verbatim>\<open>with table.batch_writer()\<close> block raises in attempt \<open>k\<close> (the writer flushes its
  buffer there); \<open>jitter k\<close> is the value of \<^verbatim>\<open>random_module.uniform(0, 1)\<close> drawn after
  attempt \<open>k\<close>.
\<close>

record 'a batch_store =
  put_item :: "nat \<Rightarrow> nat \<Rightarrow> 'a \<Rightarrow> fault option"
  flush_exit :: "nat \<Rightarrow> fault option"
  jitter :: "nat \<Rightarrow> real"

text \<open>
  The inner loop \<^verbatim>\<open>for item in batch\<close> with the counters \<^verbatim>\<open>local_success\<close> and
  \<^verbatim>\<open>local_errors\<close>. The throttling signal is raised again and leaves the loop (the flag
  \<open>True\<close>); any other \<^verbatim>\<open>ClientError\<close> and any other exception count one error and
  the loop goes on.
\<close>

fun put_loop :: "(nat \<Rightarrow> 'a \<Rightarrow> fault option) \<Rightarrow> nat \<Rightarrow> 'a list \<Rightarrow> int \<Rightarrow> int \<Rightarrow> bool \<times> int \<times> int" where
  "put_loop put j [] local_success local_errors = (False, local_success, local_errors)"
| "put_loop put j (item # rest) local_success local_errors =
     (case put j item of
        None \<Rightarrow> put_loop put (Suc j) rest (local_success + 1) local_errors
      | Some (ClientError code) \<Rightarrow>
          if code = ProvisionedThroughputExceededException
          then (True, local_success, local_errors)
          else put_loop put (Suc j) rest local_success (local_errors + 1)
      | Some OtherException \<Rightarrow> put_loop put (Suc j) rest local_success (local_errors + 1))"

text \<open>
  One attempt: the \<^verbatim>\<open>with\<close> statement around the inner loop. The exit of the block runs
  whether the body raised or not; an exception raised by the exit is the one that leaves
  the statement, otherwise the throttling signal of the body is (the writer's exit
  returns nothing, so it hides no exception). The result is the exception that leaves the
  \<^verbatim>\<open>with\<close> statement, if any, and the counters.
\<close>

definition run_attempt :: "'a batch_store \<Rightarrow> nat \<Rightarrow> 'a list \<Rightarrow> int \<Rightarrow> int \<Rightarrow> fault option \<times> int \<times> int" where
  "run_attempt st k batch local_success local_errors =
     (case put_loop (put_item st k) 0 batch local_success local_errors of
        (throttled, s, e) \<Rightarrow>
          (case flush_exit st k of
             Some f \<Rightarrow> (Some f, s, e)
           | None \<Rightarrow>
               (if throttled then Some (ClientError ProvisionedThroughputExceededException)
                else None, s, e)))"

text \<open>
  The trace of a worker: every bulk-write attempt it starts and every
  \<^verbatim>\<open>time.sleep(wait_time)\<close> it makes, in order.
\<close>

datatype event = Attempt nat | Sleep real

text \<open>
  A worker returns its two counters, or an exception that is not a \<^verbatim>\<open>ClientError\<close>
  leaves it (\<^verbatim>\<open>except ClientError\<close> does not catch it).
\<close>

datatype worker_result = Returned int int | Raised

text \<open>
  The loop \<^verbatim>\<open>for attempt in range(max_retries)\<close>, from the iteration \<open>attempt\<close> on, with
  the current values of the two counters; after the loop,
  \<^verbatim>\<open>return local_success, local_errors\<close>.
\<close>

function retry_loop :: "'a batch_store \<Rightarrow> 'a list \<Rightarrow> nat \<Rightarrow> nat \<Rightarrow> int \<Rightarrow> int \<Rightarrow> worker_result \<times> event list" where
  "retry_loop st batch max_retries attempt local_success local_errors =
     (if max_retries \<le> attempt then (Returned local_success local_errors, [])
      else
        (case run_attempt st attempt batch local_success local_errors of
           (None, s, e) \<Rightarrow> (Returned s e, [Attempt attempt])
         | (Some (ClientError code), s, e) \<Rightarrow>
             if code = ProvisionedThroughputExceededException then
               if int attempt < int max_retries - 1 then
                 (case retry_loop st batch max_retries (Suc attempt) 0 0 of
                    (r, tr) \<Rightarrow>
                      (r, Attempt attempt # Sleep (2 ^ attempt + jitter st attempt) # tr))
               else
                 (case retry_loop st batch max_retries (Suc attempt) s e of
                    (r, tr) \<Rightarrow> (r, Attempt attempt # tr))
             else (Returned 0 (e + int (length batch)), [Attempt attempt])
         | (Some OtherException, s, e) \<Rightarrow> (Raised, [Attempt attempt])))"
  by pat_completeness auto
termination
  by (relation "measure (\<lambda>(st, batch, max_retries, attempt, s, e). max_retries - attempt)") auto

declare retry_loop.simps [simp del]

definition process_batch_with_retry :: "'a batch_store \<Rightarrow> 'a list \<Rightarrow> nat \<Rightarrow> worker_result \<times> event list" where
  "process_batch_with_retry st batch max_retries = retry_loop st batch max_retries 0 0 0"

text \<open>The default of the parameter: \<^verbatim>\<open>max_retries=5\<close>.\<close>

definition default_max_retries :: nat where
  "default_max_retries = 5"


fun sleeps :: "event list \<Rightarrow> real list" where
  "sleeps [] = []"
| "sleeps (Attempt k # tr) = sleeps tr"
| "sleeps (Sleep d # tr) = d # sleeps tr"

subsection \<open>All batches: \<^verbatim>\<open>batch_write_items\<close>\<close>

text \<open>
  The pool: \<open>submit_fault = Some k\<close> says that \<^verbatim>\<open>executor.submit\<close> raises at the batch
  number \<open>k\<close> (if there is one), \<open>None\<close> that every batch is submitted.
  \<^verbatim>\<open>ThreadPoolExecutor(max_workers=0)\<close> raises \<^verbatim>\<open>ValueError\<close>. Both are caught by the
  outer \<^verbatim>\<open>except Exception\<close>, which returns
  \<^verbatim>\<open>success_count, total_items - success_count\<close>; no result has been merged then.
\<close>

record pool =
  submit_fault :: "nat option"

text \<open>
  The loop over \<^verbatim>\<open>as_completed(futures)\<close>: the results of the workers are added to the
  two counters under the lock; when \<^verbatim>\<open>future.result()\<close> raises, the length of that
  future's batch is added to \<^verbatim>\<open>error_count\<close>. The order of completion is not fixed, and
  the sums do not depend on it; the model merges in the order of submission. The store of
  batch number \<open>k\<close> is \<open>stores k\<close>.
\<close>

fun merge_results :: "(nat \<Rightarrow> 'a batch_store) \<Rightarrow> nat \<Rightarrow> 'a list list \<Rightarrow> int \<Rightarrow> int \<Rightarrow> int \<times> int" where
  "merge_results stores k [] success_count error_count = (success_count, error_count)"
| "merge_results stores k (batch # rest) success_count error_count =
     (case fst (process_batch_with_retry (stores k) batch default_max_retries) of
        Returned local_success local_errors \<Rightarrow>
          merge_results stores (Suc k) rest (success_count + local_success) (error_count + local_errors)
      | Raised \<Rightarrow>
          merge_results stores (Suc k) rest success_count (error_count + int (length batch)))"

text \<open>
  The result is the returned pair \<^verbatim>\<open>(success_count, error_count)\<close> and the number of
  batches handed to the pool.
\<close>

definition batch_write_run :: "pool \<Rightarrow> (nat \<Rightarrow> 'a batch_store) \<Rightarrow> 'a list \<Rightarrow> (int \<times> int) \<times> nat" where
  "batch_write_run p stores items =
     (let success_count = 0;
          error_count = 0;
          total_items = int (length items);
          batches = make_batches items;
          num_threads = min 10 (length batches)
      in if num_threads = 0 then ((success_count, total_items - success_count), 0)
         else
           (case submit_fault p of
              Some k \<Rightarrow>
                if k < length batches then ((success_count, total_items - success_count), k)
                else (merge_results stores 0 batches success_count error_count, length batches)
            | None \<Rightarrow>
                (merge_results stores 0 batches success_count error_count, length batches)))"

definition batch_write_items :: "pool \<Rightarrow> (nat \<Rightarrow> 'a batch_store) \<Rightarrow> 'a list \<Rightarrow> int \<times> int" where
  "batch_write_items p stores items = fst (batch_write_run p stores items)"

subsection \<open>Decoded JSON values and \<^verbatim>\<open>convert_float_to_decimal\<close>\<close>

text \<open>
  The values \<^verbatim>\<open>json.load\<close> yields, and \<^verbatim>\<open>Decimal\<close>. A dictionary is the list of its
  entries in order. Binary floating point is not computed with: the type \<open>'f\<close> of the
  floats, the type \<open>'d\<close> of the decimals and the two library functions \<^verbatim>\<open>str\<close> (on a
  float) and \<^verbatim>\<open>Decimal\<close> (on a string) are parameters.
\<close>

datatype ('f, 'd) pyval =
    PNone
  | PBool bool
  | PInt int
  | PFloat 'f
  | PStr string
  | PList "('f, 'd) pyval list"
  | PDict "(string \<times> ('f, 'd) pyval) list"
  | PDecimal 'd

primrec convert_float_to_decimal :: "('f \<Rightarrow> string) \<Rightarrow> (string \<Rightarrow> 'd) \<Rightarrow> ('f, 'd) pyval \<Rightarrow> ('f, 'd) pyval" where
  "convert_float_to_decimal str dec PNone = PNone"
| "convert_float_to_decimal str dec (PBool b) = PBool b"
| "convert_float_to_decimal str dec (PInt i) = PInt i"
| "convert_float_to_decimal str dec (PFloat x) = PDecimal (dec (str x))"
| "convert_float_to_decimal str dec (PStr s) = PStr s"
| "convert_float_to_decimal str dec (PList xs) = PList (map (convert_float_to_decimal str dec) xs)"
| "convert_float_to_decimal str dec (PDict kvs) =
     PDict (map (map_prod id (convert_float_to_decimal str dec)) kvs)"
| "convert_float_to_decimal str dec (PDecimal d) = PDecimal d"

text \<open>\<open>has_float v\<close>: a binary float occurs somewhere in \<open>v\<close>.\<close>

primrec has_float :: "('f, 'd) pyval \<Rightarrow> bool" where
  "has_float PNone = False"
| "has_float (PBool b) = False"
| "has_float (PInt i) = False"
| "has_float (PFloat x) = True"
| "has_float (PStr s) = False"
| "has_float (PList xs) = list_ex id (map has_float xs)"
| "has_float (PDict kvs) = list_ex snd (map (map_prod id has_float) kvs)"
| "has_float (PDecimal d) = False"

text \<open>
  \<^verbatim>\<open>load_json_file\<close>: what opening and decoding the file gives is an input. The function
  catches \<^verbatim>\<open>FileNotFoundError\<close> and \<^verbatim>\<open>json.JSONDecodeError\<close> and returns \<^verbatim>\<open>None\<close>;
  any other exception leaves it.
\<close>

datatype ('f, 'd) file_outcome =
    FileNotFoundError
  | JSONDecodeError
  | OtherLoadFault
  | Decoded "('f, 'd) pyval"

fun load_json_file :: "('f \<Rightarrow> string) \<Rightarrow> (string \<Rightarrow> 'd) \<Rightarrow> ('f, 'd) file_outcome \<Rightarrow> fault + ('f, 'd) pyval option" where
  "load_json_file str dec (Decoded data) = Inr (Some (convert_float_to_decimal str dec data))"
| "load_json_file str dec FileNotFoundError = Inr None"
| "load_json_file str dec JSONDecodeError = Inr None"
| "load_json_file str dec OtherLoadFault = Inl OtherException"

subsection \<open>The purge: \<^verbatim>\<open>delete_all_items_from_table\<close>\<close>

text \<open>
  An item of the table is a dictionary. A page of a scan: its \<^verbatim>\<open>Items\<close> (none when the
  key is absent) and its \<^verbatim>\<open>LastEvaluatedKey\<close>, if it has one. \<open>scan None\<close> is what
  \<^verbatim>\<open>table.scan()\<close> gives, \<open>scan (Some t)\<close> what \<^verbatim>\<open>table.scan(ExclusiveStartKey=t)\<close>
  gives; \<open>delete_item j\<close> is what the call number \<open>j\<close> of \<^verbatim>\<open>batch.delete_item\<close>
  raises, \<open>delete_exit\<close> what leaving the \<^verbatim>\<open>with table.batch_writer()\<close> block raises.
\<close>

type_synonym 'v item = "(string \<times> 'v) list"

record 'v page =
  page_items :: "'v item list"
  last_evaluated_key :: "'v item option"

record 'v purge_store =
  scan :: "'v item option \<Rightarrow> fault + 'v page"
  delete_item :: "nat \<Rightarrow> fault option"
  delete_exit :: "fault option"

text \<open>
  \<^verbatim>\<open>while 'LastEvaluatedKey' in response\<close>: the loop has no bound of its own, it ends
  when the store sends a page without a key; \<open>None\<close> is the run that never ends.
\<close>

partial_function (option) scan_rest :: "('v item option \<Rightarrow> fault + 'v page) \<Rightarrow> 'v page \<Rightarrow> 'v item list \<Rightarrow> (fault + 'v item list) option" where
  "scan_rest sc response items =
     (case last_evaluated_key response of
        None \<Rightarrow> Some (Inr items)
      | Some t \<Rightarrow>
          (case sc (Some t) of
             Inl f \<Rightarrow> Some (Inl f)
           | Inr response' \<Rightarrow> scan_rest sc response' (items @ page_items response')))"

text \<open>
  \<^verbatim>\<open>key = {pk_name: item[pk_name]}\<close>, and \<^verbatim>\<open>key[sk_name] = item[sk_name]\<close> when
  \<^verbatim>\<open>sk_name\<close> is true (neither \<^verbatim>\<open>None\<close> nor the empty string). A missing field raises
  \<^verbatim>\<open>KeyError\<close>, which is not a \<^verbatim>\<open>ClientError\<close>.
\<close>

definition build_key :: "string \<Rightarrow> string option \<Rightarrow> 'v item \<Rightarrow> fault + 'v item" where
  "build_key pk_name sk_name item =
     (case map_of item pk_name of
        None \<Rightarrow> Inl OtherException
      | Some v \<Rightarrow>
          (case sk_name of
             None \<Rightarrow> Inr [(pk_name, v)]
           | Some sk \<Rightarrow>
               if sk = [] then Inr [(pk_name, v)]
               else (case map_of item sk of
                       None \<Rightarrow> Inl OtherException
                     | Some w \<Rightarrow> Inr (AList.update sk w [(pk_name, v)]))))"

text \<open>
  \<^verbatim>\<open>for item in items\<close> inside the batch writer: the exception that leaves the loop, if
  any, and the keys handed to \<^verbatim>\<open>batch.delete_item\<close> so far.
\<close>

fun delete_loop :: "(nat \<Rightarrow> fault option) \<Rightarrow> string \<Rightarrow> string option \<Rightarrow> nat \<Rightarrow> 'v item list \<Rightarrow> 'v item list \<Rightarrow> fault option \<times> 'v item list" where
  "delete_loop del pk_name sk_name j [] sent = (None, sent)"
| "delete_loop del pk_name sk_name j (item # rest) sent =
     (case build_key pk_name sk_name item of
        Inl f \<Rightarrow> (Some f, sent)
      | Inr key \<Rightarrow>
          (case del j of
             Some f \<Rightarrow> (Some f, sent @ [key])
           | None \<Rightarrow> delete_loop del pk_name sk_name (Suc j) rest (sent @ [key])))"

text \<open>
  The two handlers of the function: \<^verbatim>\<open>ResourceNotFoundException\<close> gives \<^verbatim>\<open>True\<close>, any
  other \<^verbatim>\<open>ClientError\<close> and any other exception give \<^verbatim>\<open>False\<close>.
\<close>

fun purge_handler :: "fault \<Rightarrow> bool" where
  "purge_handler (ClientError code) = (code = ResourceNotFoundException)"
| "purge_handler OtherException = False"

text \<open>
  The result: the boolean returned and the keys handed to \<^verbatim>\<open>batch.delete_item\<close>.
\<close>

definition delete_all_items_from_table :: "'v purge_store \<Rightarrow> string \<Rightarrow> string option \<Rightarrow> (bool \<times> 'v item list) option" where
  "delete_all_items_from_table ps pk_name sk_name =
     (case scan ps None of
        Inl f \<Rightarrow> Some (purge_handler f, [])
      | Inr response \<Rightarrow>
          (case scan_rest (scan ps) response (page_items response) of
             None \<Rightarrow> None
           | Some (Inl f) \<Rightarrow> Some (purge_handler f, [])
           | Some (Inr items) \<Rightarrow>
               if items = [] then Some (True, [])
               else
                 (case delete_loop (delete_item ps) pk_name sk_name 0 items [] of
                    (body_fault, sent) \<Rightarrow>
                      (case (case delete_exit ps of Some f \<Rightarrow> Some f | None \<Rightarrow> body_fault) of
                         None \<Rightarrow> Some (True, sent)
                       | Some f \<Rightarrow> Some (purge_handler f, sent)))))"

subsection \<open>One table: \<^verbatim>\<open>table_exists\<close>, \<^verbatim>\<open>create_table\<close>, \<^verbatim>\<open>populate_table\<close>\<close>

record table_config =
  table_name :: string
  pk :: string
  sk :: "string option"


text \<open>
  Everything outside the program that one call of \<^verbatim>\<open>populate_table\<close> meets:
  \<open>describe_table\<close> is what \<^verbatim>\<open>dynamodb_client.describe_table\<close> raises;
  \<open>create_table_call\<close> and \<open>wait_until_exists\<close> are what \<^verbatim>\<open>dynamodb.create_table\<close> and
  \<^verbatim>\<open>table.wait_until_exists\<close> raise; \<open>probe_scan\<close> is what \<^verbatim>\<open>table.scan(Limit=1)\<close>
  raises, or the \<^verbatim>\<open>Count\<close> of its answer (0 when absent); \<open>purge_store\<close> answers the
  purge; \<open>file_content\<close> is what opening and decoding the file gives; \<open>executor\<close> and
  \<open>stores\<close> answer the batch write.
\<close>

record ('f, 'd, 'v) world =
  describe_table :: "fault option"
  create_table_call :: "fault option"
  wait_until_exists :: "fault option"
  probe_scan :: "fault + int"
  purge_store :: "'v purge_store"
  file_content :: "('f, 'd) file_outcome"
  str_of_float :: "'f \<Rightarrow> string"
  Decimal :: "string \<Rightarrow> 'd"
  executor :: pool
  stores :: "nat \<Rightarrow> ('f, 'd) pyval batch_store"

text \<open>
  \<^verbatim>\<open>table_exists\<close>: \<^verbatim>\<open>True\<close> when the description is given, \<^verbatim>\<open>False\<close> on
  \<^verbatim>\<open>ResourceNotFoundException\<close>; any other \<^verbatim>\<open>ClientError\<close> is raised again
  (\<^verbatim>\<open>else: raise\<close>), and an exception that is not a \<^verbatim>\<open>ClientError\<close> is not caught.
\<close>

definition table_exists :: "('f, 'd, 'v) world \<Rightarrow> fault + bool" where
  "table_exists w =
     (case describe_table w of
        None \<Rightarrow> Inr True
      | Some (ClientError code) \<Rightarrow>
          if code = ResourceNotFoundException then Inr False else Inl (ClientError code)
      | Some OtherException \<Rightarrow> Inl OtherException)"




subsection \<open>Describing what the store answers\<close>

text \<open>
  \<open>scan_pages sc tok pages\<close>: asked from the key \<open>tok\<close> on, the store answers with exactly
  the pages \<open>pages\<close>, each but the last carrying the key that asks for the next one, the
  last carrying none.
\<close>

fun scan_pages :: "('v item option \<Rightarrow> fault + 'v page) \<Rightarrow> 'v item option \<Rightarrow> 'v page list \<Rightarrow> bool" where
  "scan_pages sc tok [] = False"
| "scan_pages sc tok [p] = (sc tok = Inr p \<and> last_evaluated_key p = None)"
| "scan_pages sc tok (p # q # ps) =
     (sc tok = Inr p \<and> last_evaluated_key p \<noteq> None \<and> scan_pages sc (last_evaluated_key p) (q # ps))"

text \<open>The fields of a key: the partition key, and the sort key when one is declared.\<close>

definition key_fields :: "string \<Rightarrow> string option \<Rightarrow> string set" where
  "key_fields pk_name sk_name =
     (case sk_name of None \<Rightarrow> {pk_name} | Some s \<Rightarrow> if s = [] then {pk_name} else {pk_name, s})"

subsection \<open>Stores and tables of the examples\<close>

text \<open>A batch writer that accepts everything, and the ones the examples need.\<close>

definition quiet_store :: "'a batch_store" where
  "quiet_store = \<lparr>put_item = (\<lambda>k j x. None), flush_exit = (\<lambda>k. None), jitter = (\<lambda>k. 0)\<rparr>"

text \<open>In every attempt, the call of \<^verbatim>\<open>put_item\<close> at position \<open>p\<close> raises the throttling signal.\<close>

definition throttling_at :: "nat \<Rightarrow> 'a batch_store" where
  "throttling_at p =
     quiet_store\<lparr>put_item := (\<lambda>k j x. if j = p
        then Some (ClientError ProvisionedThroughputExceededException) else None)\<rparr>"

text \<open>In every attempt, the flush at the exit of the block raises the throttling signal.\<close>

definition throttling_at_exit :: "'a batch_store" where
  "throttling_at_exit =
     quiet_store\<lparr>flush_exit := (\<lambda>k. Some (ClientError ProvisionedThroughputExceededException))\<rparr>"

text \<open>
  In the first attempt only, the call of \<^verbatim>\<open>put_item\<close> at position \<open>p\<close> raises the
  throttling signal; every jitter is one half.
\<close>

definition throttling_once_at :: "nat \<Rightarrow> 'a batch_store" where
  "throttling_once_at p =
     \<lparr>put_item = (\<lambda>k j x. if k = 0 \<and> j = p
        then Some (ClientError ProvisionedThroughputExceededException) else None),
      flush_exit = (\<lambda>k. None), jitter = (\<lambda>k. 1 / 2)\<rparr>"


text \<open>A table of two pages, three items in all, and a table that does not exist.\<close>

definition two_pages :: "nat item option \<Rightarrow> fault + nat page" where
  "two_pages tok =
     (case tok of
        None \<Rightarrow> Inr \<lparr>page_items = [[(''local_id'', 1), (''nombre'', 7), (''precio'', 30)],
                                 [(''local_id'', 1), (''nombre'', 8), (''precio'', 12)]],
                   last_evaluated_key = Some [(''local_id'', 1), (''nombre'', 8)]\<rparr>
      | Some t \<Rightarrow> Inr \<lparr>page_items = [[(''local_id'', 2), (''nombre'', 7), (''precio'', 31)]],
                     last_evaluated_key = None\<rparr>)"

definition two_page_table :: "nat purge_store" where
  "two_page_table = \<lparr>scan = two_pages, delete_item = (\<lambda>j. None), delete_exit = None\<rparr>"

definition missing_table :: "nat purge_store" where
  "missing_table =
     \<lparr>scan = (\<lambda>tok. Inl (ClientError ResourceNotFoundException)),
      delete_item = (\<lambda>j. None), delete_exit = None\<rparr>"




section \<open>Properties\<close>

subsection \<open>The partition into batches\<close>

lemma range_step_unfold:
  "range_step i n step = (if step = 0 \<or> n \<le> i then [] else i # range_step (i + step) n step)"
  by (rule range_step.simps)

lemma concat_batches_from:
  "0 < b \<Longrightarrow> concat (map (\<lambda>i. slice xs i (i + b)) (range_step i (length xs) b)) = drop i xs"
proof (induction i "length xs" b rule: range_step.induct)
  case (1 i step)
  show ?case
  proof (cases "length xs \<le> i")
    case True
    then show ?thesis by (subst range_step_unfold) simp
  next
    case False
    have "take step (drop i xs) @ drop (i + step) xs = drop i xs"
      by (metis add.commute append_take_drop_id drop_drop)
    with False 1 show ?thesis
      by (subst range_step_unfold) (simp add: slice_def)
  qed
qed

lemma length_range_step:
  "0 < b \<Longrightarrow> length (range_step i n b) = (n - i + (b - 1)) div b"
proof (induction i n b rule: range_step.induct)
  case (1 i n step)
  show ?case
  proof (cases "n \<le> i")
    case True
    then show ?thesis using 1(2) by (subst range_step_unfold) simp
  next
    case False
    have ih: "length (range_step (i + step) n step) = (n - (i + step) + (step - 1)) div step"
      using 1 False by simp
    have split: "n - i + (step - 1) = (n - i - 1) + step"
      using False 1(2) by arith
    have "((n - i - 1) + step) div step = Suc ((n - i - 1) div step)"
      using 1(2) by simp
    then have l: "(n - i + (step - 1)) div step = Suc ((n - i - 1) div step)"
      by (simp only: split)
    have r: "(n - (i + step) + (step - 1)) div step = (n - i - 1) div step"
    proof (cases "i + step \<le> n")
      case True
      then have "n - (i + step) + (step - 1) = n - i - 1" using 1(2) by arith
      then show ?thesis by simp
    next
      case F2: False
      then have "n - (i + step) + (step - 1) < step" "n - i - 1 < step" using 1(2) by arith+
      then show ?thesis by simp
    qed
    show ?thesis using False 1(2) ih l r by (subst range_step_unfold) simp
  qed
qed

lemma range_step_nth:
  "0 < b \<Longrightarrow> k < length (range_step i n b) \<Longrightarrow> range_step i n b ! k = i + k * b \<and> i + k * b < n"
proof (induction i n b arbitrary: k rule: range_step.induct)
  case (1 i n step)
  show ?case
  proof (cases "n \<le> i")
    case True
    then show ?thesis using 1(3) by (subst (asm) range_step_unfold) simp
  next
    case False
    have eq: "range_step i n step = i # range_step (i + step) n step"
      using False 1(2) by (subst range_step_unfold) simp
    show ?thesis
    proof (cases k)
      case 0
      then show ?thesis using eq False by simp
    next
      case (Suc k')
      then have "k' < length (range_step (i + step) n step)" using 1(3) eq by simp
      then have "range_step (i + step) n step ! k' = i + step + k' * step \<and> i + step + k' * step < n"
        using 1(1)[of k'] False 1(2) by simp
      then show ?thesis using eq Suc by (simp add: algebra_simps)
    qed
  qed
qed


lemma batches_of_nth:
  assumes "0 < b" "k < length (batches_of b xs)"
  shows "batches_of b xs ! k = take b (drop (k * b) xs) \<and> k * b < length xs"
proof -
  have k: "k < length (range_step 0 (length xs) b)"
    using assms(2) by (simp add: batches_of_def)
  from range_step_nth[OF assms(1) k]
  have "range_step 0 (length xs) b ! k = k * b" "k * b < length xs" by simp_all
  then show ?thesis using k by (simp add: batches_of_def slice_def)
qed

lemma ceiling_div_nat:
  "0 < b \<Longrightarrow> \<lceil>real n / real b\<rceil> = int ((n + (b - 1)) div b)"
proof -
  assume b: "0 < b"
  define q where "q = (n + (b - 1)) div b"
  have lo: "n \<le> q * b"
  proof -
    have "n + (b - 1) < (q + 1) * b"
      unfolding q_def using b
      by (metis Suc_eq_plus1 dividend_less_div_times mult.commute add.commute mult_Suc)
    then show ?thesis using b by (simp add: algebra_simps) 
  qed
  have hi: "q * b < n + b"
  proof -
    have "q * b \<le> n + (b - 1)" unfolding q_def by simp
    then show ?thesis using b by arith
  qed
  have "real n / real b \<le> real q"
    using lo b by (simp add: pos_divide_le_eq flip: of_nat_mult)
  moreover have "real q - 1 < real n / real b"
  proof -
    have "real (q * b) < real (n + b)" using hi by (simp only: of_nat_less_iff)
    then have "(real q - 1) * real b < real n" by (simp add: algebra_simps)
    then show ?thesis using b by (simp add: pos_less_divide_eq)
  qed
  ultimately have "\<lceil>real n / real b\<rceil> = int q"
    by (intro ceiling_unique) simp_all
  then show ?thesis by (simp add: q_def)
qed

text \<open>
  C7. For every item sequence of length \<open>N\<close>, the partition step (batch size 25) yields
  exactly \<open>\<lceil>N / 25\<rceil>\<close> batches, in the original order: the batch number \<open>k\<close> is the
  slice of 25 items starting at \<open>25 k\<close>, the concatenation of the batches is the input,
  every batch but possibly the last has exactly 25 items, and no batch is empty or longer
  than 25.
\<close>

theorem make_batches_partition:
  "length (make_batches items) = (length items + 24) div 25
   \<and> int (length (make_batches items)) = \<lceil>real (length items) / 25\<rceil>
   \<and> concat (make_batches items) = items
   \<and> (\<forall>k. Suc k < length (make_batches items) \<longrightarrow> length (make_batches items ! k) = 25)
   \<and> (\<forall>k < length (make_batches items).
         make_batches items ! k = take 25 (drop (k * 25) items)
         \<and> 0 < length (make_batches items ! k) \<and> length (make_batches items ! k) \<le> 25)"
proof -
  have len: "length (make_batches items) = (length items + 24) div 25"
    using length_range_step[of 25 0 "length items"]
    by (simp add: make_batches_def batches_of_def batch_size_def)
  have ceil: "int (length (make_batches items)) = \<lceil>real (length items) / 25\<rceil>"
    using ceiling_div_nat[of 25 "length items"] len by simp
  have cat: "concat (make_batches items) = items"
    using concat_batches_from[of 25 items 0]
    by (simp add: make_batches_def batches_of_def batch_size_def)
  have nth: "make_batches items ! k = take 25 (drop (k * 25) items) \<and> k * 25 < length items"
    if "k < length (make_batches items)" for k
    using batches_of_nth[of 25 k items] that by (simp add: make_batches_def batch_size_def)
  have full: "length (make_batches items ! k) = 25" if "Suc k < length (make_batches items)" for k
  proof -
    from nth[OF that] have "Suc k * 25 < length items" by simp
    moreover have "make_batches items ! k = take 25 (drop (k * 25) items)"
      using nth[of k] that by simp
    ultimately show ?thesis by simp
  qed
  have each: "make_batches items ! k = take 25 (drop (k * 25) items)
      \<and> 0 < length (make_batches items ! k) \<and> length (make_batches items ! k) \<le> 25"
    if "k < length (make_batches items)" for k
    using nth[OF that] by simp
  show ?thesis using len ceil cat full each by blast
qed

theorem make_batches_partition_witness:
  "Suc 0 < length (make_batches (replicate 30 (0::nat)))
   \<and> length (make_batches (replicate 30 (0::nat)) ! 0) = 25
   \<and> length (make_batches (replicate 30 (0::nat)) ! 1) = 5"
  using make_batches_partition[of "replicate 30 (0::nat)"]
  by simp

subsection \<open>One attempt\<close>

lemma put_loop_shift:
  "put_loop put j xs s e =
     (case put_loop put j xs 0 0 of (t, ds, de) \<Rightarrow> (t, s + ds, e + de))"
proof (induction xs arbitrary: j s e)
  case Nil
  show ?case by simp
next
  case (Cons x xs)
  note ih = Cons.IH
  show ?case
  proof (cases "put j x")
    case None
    then show ?thesis
      using ih[of "Suc j" "s + 1" e] ih[of "Suc j" 1 0]
      by (simp split: prod.splits)
  next
    case (Some f)
    show ?thesis
    proof (cases f)
      case (ClientError code)
      then show ?thesis
        using Some ih[of "Suc j" s "e + 1"] ih[of "Suc j" 0 1]
        by (simp split: prod.splits)
    next
      case OtherException
      then show ?thesis
        using Some ih[of "Suc j" s "e + 1"] ih[of "Suc j" 0 1]
        by (simp split: prod.splits)
    qed
  qed
qed

lemma put_loop_bounds:
  "put_loop put j xs s e = (t, s', e') \<Longrightarrow>
     s \<le> s' \<and> e \<le> e' \<and> (s' - s) + (e' - e) \<le> int (length xs)
     \<and> (\<not> t \<longrightarrow> (s' - s) + (e' - e) = int (length xs))"
proof (induction xs arbitrary: j s e)
  case Nil
  then show ?case by simp
next
  case (Cons x xs)
  show ?case
  proof (cases "put j x")
    case None
    then have "put_loop put (Suc j) xs (s + 1) e = (t, s', e')" using Cons.prems by simp
    from Cons.IH[OF this] show ?thesis by auto
  next
    case (Some f)
    show ?thesis
    proof (cases "f = ClientError ProvisionedThroughputExceededException")
      case True
      then show ?thesis using Some Cons.prems by simp
    next
      case False
      then have "put_loop put (Suc j) xs s (e + 1) = (t, s', e')"
        using Some Cons.prems by (cases f) (simp_all split: if_splits)
      from Cons.IH[OF this] show ?thesis by auto
    qed
  qed
qed

lemma run_attempt_shift:
  "run_attempt st k batch s e =
     (case run_attempt st k batch 0 0 of (f, ds, de) \<Rightarrow> (f, s + ds, e + de))"
  unfolding run_attempt_def
  by (subst put_loop_shift) (simp split: prod.splits option.splits)

lemma run_attempt_fault:
  "fst (run_attempt st k batch s e) = fst (run_attempt st k batch 0 0)"
  by (subst run_attempt_shift) (simp split: prod.splits)

lemma run_attempt_bounds:
  "run_attempt st k batch s e = (f, s', e') \<Longrightarrow>
     s \<le> s' \<and> e \<le> e' \<and> (s' - s) + (e' - e) \<le> int (length batch)
     \<and> (f = None \<longrightarrow> (s' - s) + (e' - e) = int (length batch))"
  unfolding run_attempt_def
  by (auto split: prod.splits option.splits if_splits dest!: put_loop_bounds)

subsection \<open>The retry loop\<close>

lemma retry_loop_unfold:
  "retry_loop st batch max_retries attempt local_success local_errors =
     (if max_retries \<le> attempt then (Returned local_success local_errors, [])
      else
        (case run_attempt st attempt batch local_success local_errors of
           (None, s, e) \<Rightarrow> (Returned s e, [Attempt attempt])
         | (Some (ClientError code), s, e) \<Rightarrow>
             if code = ProvisionedThroughputExceededException then
               if int attempt < int max_retries - 1 then
                 (case retry_loop st batch max_retries (Suc attempt) 0 0 of
                    (r, tr) \<Rightarrow>
                      (r, Attempt attempt # Sleep (2 ^ attempt + jitter st attempt) # tr))
               else
                 (case retry_loop st batch max_retries (Suc attempt) s e of
                    (r, tr) \<Rightarrow> (r, Attempt attempt # tr))
             else (Returned 0 (e + int (length batch)), [Attempt attempt])
         | (Some OtherException, s, e) \<Rightarrow> (Raised, [Attempt attempt])))"
  by (rule retry_loop.simps)

lemma retry_loop_done:
  "max_retries \<le> attempt \<Longrightarrow> retry_loop st batch max_retries attempt s e = (Returned s e, [])"
  by (subst retry_loop_unfold) simp

lemma retry_loop_throttled_retry:
  assumes "Suc attempt < max_retries"
    and "fst (run_attempt st attempt batch s e) = Some (ClientError ProvisionedThroughputExceededException)"
  shows "retry_loop st batch max_retries attempt s e =
           (fst (retry_loop st batch max_retries (Suc attempt) 0 0),
            Attempt attempt # Sleep (2 ^ attempt + jitter st attempt)
              # snd (retry_loop st batch max_retries (Suc attempt) 0 0))"
  using assms
  by (subst retry_loop_unfold) (auto split: prod.splits)

lemma retry_loop_throttled_last:
  assumes "Suc attempt = max_retries"
    and "run_attempt st attempt batch s e = (Some (ClientError ProvisionedThroughputExceededException), s', e')"
  shows "retry_loop st batch max_retries attempt s e = (Returned s' e', [Attempt attempt])"
  using assms
  by (subst retry_loop_unfold) (auto simp: retry_loop_done)

lemma retry_loop_client_error:
  assumes "attempt < max_retries"
    and "run_attempt st attempt batch s e = (Some (ClientError code), s', e')"
    and "code \<noteq> ProvisionedThroughputExceededException"
  shows "retry_loop st batch max_retries attempt s e =
           (Returned 0 (e' + int (length batch)), [Attempt attempt])"
  using assms
  by (subst retry_loop_unfold) auto

lemma retry_loop_bounds:
  "retry_loop st batch max_retries attempt s e = (Returned s' e', tr) \<Longrightarrow>
     0 \<le> s \<Longrightarrow> s \<le> int (length batch) \<Longrightarrow> 0 \<le> e \<Longrightarrow>
     (attempt < max_retries \<Longrightarrow> s = 0) \<Longrightarrow>
     0 \<le> s' \<and> s' \<le> int (length batch) \<and> 0 \<le> e'"
proof (induction st batch max_retries attempt s e arbitrary: s' e' tr rule: retry_loop.induct)
  case (1 st batch max_retries attempt s e)
  show ?case
  proof (cases "max_retries \<le> attempt")
    case True
    then show ?thesis using "1.prems" by (simp add: retry_loop_done)
  next
    case False
    then have s0: "s = 0" using "1.prems" by simp
    obtain f s1 e1 where ra: "run_attempt st attempt batch s e = (f, s1, e1)"
      by (cases "run_attempt st attempt batch s e") auto
    from run_attempt_bounds[OF ra] s0 "1.prems"
    have b: "0 \<le> s1" "s1 \<le> int (length batch)" "0 \<le> e1" by auto
    show ?thesis
    proof (cases f)
      case None
      then show ?thesis using False ra b "1.prems"(1)
        by (subst (asm) retry_loop_unfold) simp
    next
      case (Some flt)
      show ?thesis
      proof (cases flt)
        case OtherException
        then show ?thesis using False ra Some "1.prems"(1)
          by (subst (asm) retry_loop_unfold) simp
      next
        case (ClientError code)
        show ?thesis
        proof (cases "code = ProvisionedThroughputExceededException")
          case F2: False
          then show ?thesis using False ra Some ClientError b "1.prems"(1)
            by (subst (asm) retry_loop_unfold) auto
        next
          case T2: True
          show ?thesis
          proof (cases "int attempt < int max_retries - 1")
            case T3: True
            obtain r2 tr2 where rl: "retry_loop st batch max_retries (Suc attempt) 0 0 = (r2, tr2)"
              by (cases "retry_loop st batch max_retries (Suc attempt) 0 0") auto
            have "r2 = Returned s' e'"
              using False ra Some ClientError T2 T3 rl "1.prems"(1)
              by (subst (asm) retry_loop_unfold) simp
            with rl have "retry_loop st batch max_retries (Suc attempt) 0 0 = (Returned s' e', tr2)"
              by simp
            from "1.IH"(1)[OF False ra[symmetric] Some ClientError refl T2 T3 this]
            show ?thesis by simp
          next
            case F3: False
            then have last: "Suc attempt = max_retries" using False by arith
            from retry_loop_throttled_last[OF last] ra Some ClientError T2
            have "retry_loop st batch max_retries attempt s e = (Returned s1 e1, [Attempt attempt])"
              by simp
            then show ?thesis using "1.prems"(1) b by simp
          qed
        qed
      qed
    qed
  qed
qed

subsection \<open>The tally\<close>

lemma worker_bounds:
  "process_batch_with_retry st batch max_retries = (Returned s e, tr) \<Longrightarrow>
     0 \<le> s \<and> s \<le> int (length batch) \<and> 0 \<le> e"
  using retry_loop_bounds[of st batch max_retries 0 0 0 s e tr]
  by (simp add: process_batch_with_retry_def)

lemma merge_results_bounds:
  "merge_results sts k bs sc ec = (sc', ec') \<Longrightarrow>
     sc \<le> sc' \<and> sc' \<le> sc + int (length (concat bs)) \<and> ec \<le> ec'"
proof (induction bs arbitrary: k sc ec)
  case Nil
  then show ?case by simp
next
  case (Cons b bs)
  obtain r tr where w: "process_batch_with_retry (sts k) b default_max_retries = (r, tr)"
    by (cases "process_batch_with_retry (sts k) b default_max_retries") auto
  show ?case
  proof (cases r)
    case (Returned ls le)
    with w Cons.prems
    have "merge_results sts (Suc k) bs (sc + ls) (ec + le) = (sc', ec')" by simp
    from Cons.IH[OF this] worker_bounds[OF w[unfolded Returned]]
    show ?thesis by simp
  next
    case Raised
    with w Cons.prems
    have "merge_results sts (Suc k) bs sc (ec + int (length b)) = (sc', ec')" by simp
    from Cons.IH[OF this] show ?thesis by simp
  qed
qed

lemma concat_make_batches: "concat (make_batches items) = items"
  using concat_batches_from[of 25 items 0]
  by (simp add: make_batches_def batches_of_def batch_size_def)

lemma make_batches_Nil: "make_batches [] = []"
  by (simp add: make_batches_def batches_of_def range_step_unfold[of 0 0])

text \<open>
  C10. On every return path of \<^verbatim>\<open>batch_write_items\<close>, for an input of \<open>N\<close> items, the
  returned counts satisfy \<open>0 \<le> success_count \<le> N\<close> and \<open>0 \<le> error_count\<close>; in particular
  \<open>total_items - success_count\<close>, the error count of the dispatch-failure path, is not
  negative. It rests on \<open>worker_bounds\<close>: the success count a worker returns is never
  more than the length of its batch.
\<close>

theorem batch_write_items_bounds:
  "0 \<le> fst (batch_write_items p sts items)
   \<and> fst (batch_write_items p sts items) \<le> int (length items)
   \<and> 0 \<le> snd (batch_write_items p sts items)
   \<and> 0 \<le> int (length items) - fst (batch_write_items p sts items)"
proof -
  obtain sc ec where m: "merge_results sts 0 (make_batches items) 0 0 = (sc, ec)"
    by (cases "merge_results sts 0 (make_batches items) 0 0") auto
  from merge_results_bounds[OF m]
  have b: "0 \<le> sc" "sc \<le> int (length items)" "0 \<le> ec"
    by (simp_all add: concat_make_batches)
  show ?thesis
    using m b
    by (simp add: batch_write_items_def batch_write_run_def Let_def split: option.splits)
qed

theorem batch_write_items_bounds_witness:
  "batch_write_items \<lparr>submit_fault = None\<rparr> (\<lambda>i. throttling_at 24) (replicate 30 (0::nat)) = (29, 0)
   \<and> (0::int) \<le> 29 \<and> (29::int) \<le> int (length (replicate 30 (0::nat)))"
proof -
  have "batch_write_items \<lparr>submit_fault = None\<rparr> (\<lambda>i. throttling_at 24) (replicate 30 (0::nat)) = (29, 0)"
    by code_simp
  then show ?thesis
    using batch_write_items_bounds[of "\<lparr>submit_fault = None\<rparr>" "\<lambda>i. throttling_at 24" "replicate 30 (0::nat)"]
    by simp
qed

text \<open>
  C6. Given an empty record sequence, \<^verbatim>\<open>batch_write_items\<close> returns the tally \<open>(0, 0)\<close>
  and hands no batch to the pool. (The path taken is the outer \<^verbatim>\<open>except Exception\<close>:
  there is no batch, so \<^verbatim>\<open>ThreadPoolExecutor(max_workers=0)\<close> raises \<^verbatim>\<open>ValueError\<close>,
  which is caught, and \<open>total_items - success_count = 0\<close>. No exception leaves the
  function and the error count is 0.)
\<close>

theorem batch_write_items_empty:
  "batch_write_run p sts [] = ((0, 0), 0) \<and> batch_write_items p sts [] = (0, 0)"
  by (simp add: batch_write_items_def batch_write_run_def make_batches_Nil)

theorem batch_write_items_empty_witness:
  "batch_write_run \<lparr>submit_fault = None\<rparr> (\<lambda>i. quiet_store) ([] :: nat list) = ((0, 0), 0)"
  using batch_write_items_empty[of "\<lparr>submit_fault = None\<rparr>" "\<lambda>i. quiet_store :: nat batch_store"]
  by simp

subsection \<open>The trace of a worker\<close>

lemma sleeps_append: "sleeps (xs @ ys) = sleeps xs @ sleeps ys"
  by (induction xs rule: sleeps.induct) simp_all


lemma sleeps_backoff:
  "sleeps (concat (map (\<lambda>j. [Attempt j, Sleep (d j)]) js)) = map d js"
  by (induction js) simp_all

lemma hd_backoff:
  "hd (concat (map (\<lambda>j. [Attempt j, Sleep (d j)]) [a..<a + m]) @ [Attempt (a + m)]) = Attempt a"
proof (cases m)
  case 0
  then show ?thesis by simp
next
  case (Suc n)
  have upt: "[a..<a + Suc n] = a # [Suc a..<a + Suc n]"
    using upt_conv_Cons[of a "a + Suc n"] by simp
  show ?thesis unfolding Suc upt by simp
qed

lemma retry_loop_trace:
  "attempt < max_retries \<Longrightarrow>
     \<exists>m. attempt + m < max_retries \<and>
         snd (retry_loop st batch max_retries attempt s e) =
           concat (map (\<lambda>j. [Attempt j, Sleep (2 ^ j + jitter st j)]) [attempt..<attempt + m])
             @ [Attempt (attempt + m)]"
proof (induction st batch max_retries attempt s e rule: retry_loop.induct)
  case (1 st batch max_retries attempt s e)
  let ?pair = "\<lambda>j. [Attempt j, Sleep (2 ^ j + jitter st j)]"
  have stop: "\<exists>m. attempt + m < max_retries \<and>
         [Attempt attempt] = concat (map ?pair [attempt..<attempt + m]) @ [Attempt (attempt + m)]"
    using "1.prems" by (intro exI[of _ 0]) simp
  obtain f s1 e1 where ra: "run_attempt st attempt batch s e = (f, s1, e1)"
    by (cases "run_attempt st attempt batch s e") auto
  show ?case
  proof (cases "f = Some (ClientError ProvisionedThroughputExceededException)")
    case False
    have "snd (retry_loop st batch max_retries attempt s e) = [Attempt attempt]"
      using False ra "1.prems"
      by (subst retry_loop_unfold) (auto split: option.splits fault.splits)
    then show ?thesis using stop by simp
  next
    case True
    show ?thesis
    proof (cases "Suc attempt < max_retries")
      case F3: False
      then have last: "Suc attempt = max_retries" using "1.prems" by arith
      have "retry_loop st batch max_retries attempt s e = (Returned s1 e1, [Attempt attempt])"
        using ra True by (intro retry_loop_throttled_last[OF last]) simp
      then have "snd (retry_loop st batch max_retries attempt s e) = [Attempt attempt]" by simp
      then show ?thesis using stop by simp
    next
      case T3: True
      then have T3': "int attempt < int max_retries - 1" by simp
      have nle: "\<not> max_retries \<le> attempt" using "1.prems" by simp
      from "1.IH"(1)[OF nle ra[symmetric] True refl refl refl T3' T3]
      obtain m where m: "Suc attempt + m < max_retries"
        "snd (retry_loop st batch max_retries (Suc attempt) 0 0) =
           concat (map ?pair [Suc attempt..<Suc attempt + m]) @ [Attempt (Suc attempt + m)]"
        by blast
      have "fst (run_attempt st attempt batch s e) = Some (ClientError ProvisionedThroughputExceededException)"
        using ra True by simp
      from retry_loop_throttled_retry[OF T3 this]
      have "snd (retry_loop st batch max_retries attempt s e) =
          Attempt attempt # Sleep (2 ^ attempt + jitter st attempt)
            # snd (retry_loop st batch max_retries (Suc attempt) 0 0)" by simp
      also have "\<dots> = concat (map ?pair [attempt..<attempt + Suc m]) @ [Attempt (attempt + Suc m)]"
      proof -
        have upt: "[attempt..<attempt + Suc m] = attempt # [Suc attempt..<Suc attempt + m]"
          using upt_conv_Cons[of attempt "attempt + Suc m"] by simp
        show ?thesis unfolding m(2) upt by simp
      qed
      finally show ?thesis using m(1) by (intro exI[of _ "Suc m"]) simp
    qed
  qed
qed



lemma backoff_strict_mono:
  assumes "\<forall>k. 0 \<le> jitter st k \<and> jitter st k < 1" and "a < b"
  shows "2 ^ a + jitter st a < 2 ^ b + jitter st b"
proof -
  have "2 ^ a + jitter st a < (2::real) ^ a + 1" using assms(1) by simp
  also have "\<dots> \<le> 2 ^ a + 2 ^ a" by simp
  also have "\<dots> = 2 ^ Suc a" by simp
  also have "\<dots> \<le> 2 ^ b" using assms(2) by (intro power_increasing) simp_all
  also have "\<dots> \<le> 2 ^ b + jitter st b" using assms(1) by simp
  finally show ?thesis .
qed

lemma sleeps_retry_loop:
  "\<exists>m. m \<le> max_retries - 1 - attempt \<and>
       sleeps (snd (retry_loop st batch max_retries attempt s e)) =
         map (\<lambda>k. 2 ^ k + jitter st k) [attempt..<attempt + m]"
proof (cases "attempt < max_retries")
  case False
  then show ?thesis by (intro exI[of _ 0]) (simp add: retry_loop_done)
next
  case True
  from retry_loop_trace[OF True, of st batch s e]
  obtain m where m: "attempt + m < max_retries"
    "snd (retry_loop st batch max_retries attempt s e) =
       concat (map (\<lambda>j. [Attempt j, Sleep (2 ^ j + jitter st j)]) [attempt..<attempt + m])
         @ [Attempt (attempt + m)]"
    by blast
  have "sleeps (snd (retry_loop st batch max_retries attempt s e)) =
         map (\<lambda>k. 2 ^ k + jitter st k) [attempt..<attempt + m]"
    unfolding m(2) sleeps_append sleeps_backoff by simp
  moreover have "m \<le> max_retries - 1 - attempt" using m(1) by arith
  ultimately show ?thesis by blast
qed

lemma sorted_backoff:
  assumes "\<forall>k. 0 \<le> jitter st k \<and> jitter st k < 1"
  shows "sorted_wrt (<) (map (\<lambda>k. 2 ^ k + jitter st k) [a..<b])"
proof -
  have "sorted_wrt (\<lambda>x y. 2 ^ x + jitter st x < 2 ^ y + jitter st y) [a..<b]"
    by (rule sorted_wrt_mono_rel[OF _ sorted_wrt_upt]) (simp add: backoff_strict_mono[OF assms])
  then show ?thesis by (simp add: sorted_wrt_map)
qed





text \<open>
  C3. When the attempt number \<open>attempt\<close> (counted from 0) of a batch ends with the
  throttling signal and another attempt remains, the worker waits
  \<open>2 ^ attempt + jitter\<close> seconds and runs the loop again from the attempt
  \<open>attempt + 1\<close> with both counters at zero and the same whole batch: whatever the
  counters held is gone (if the next attempt ends without an exception, the worker returns
  exactly the counts of that attempt). With every jitter in \<open>[0, 1)\<close>, the waits of a
  worker are \<open>2 ^ 0 + jitter, 2 ^ 1 + jitter, \<dots>\<close> in this order, each strictly longer than
  the one before (so they do not decrease, for every draw of the jitter and hence in
  expectation).
\<close>

theorem throttled_attempt_backoff:
  assumes "\<forall>k. 0 \<le> jitter st k \<and> jitter st k < 1"
  shows "(Suc attempt < max_retries
            \<and> fst (run_attempt st attempt batch s e)
                = Some (ClientError ProvisionedThroughputExceededException) \<longrightarrow>
          retry_loop st batch max_retries attempt s e =
            (fst (retry_loop st batch max_retries (Suc attempt) 0 0),
             Attempt attempt # Sleep (2 ^ attempt + jitter st attempt)
               # snd (retry_loop st batch max_retries (Suc attempt) 0 0))
          \<and> hd (snd (retry_loop st batch max_retries (Suc attempt) 0 0)) = Attempt (Suc attempt)
          \<and> (fst (run_attempt st (Suc attempt) batch 0 0) = None \<longrightarrow>
               fst (retry_loop st batch max_retries attempt s e) =
                 Returned (fst (snd (run_attempt st (Suc attempt) batch 0 0)))
                          (snd (snd (run_attempt st (Suc attempt) batch 0 0)))))
       \<and> (\<exists>m \<le> max_retries - 1.
            sleeps (snd (process_batch_with_retry st batch max_retries)) =
              map (\<lambda>k. 2 ^ k + jitter st k) [0..<m])
       \<and> sorted_wrt (<) (sleeps (snd (process_batch_with_retry st batch max_retries)))"
proof -
  have step: "retry_loop st batch max_retries attempt s e =
            (fst (retry_loop st batch max_retries (Suc attempt) 0 0),
             Attempt attempt # Sleep (2 ^ attempt + jitter st attempt)
               # snd (retry_loop st batch max_retries (Suc attempt) 0 0))
          \<and> hd (snd (retry_loop st batch max_retries (Suc attempt) 0 0)) = Attempt (Suc attempt)
          \<and> (fst (run_attempt st (Suc attempt) batch 0 0) = None \<longrightarrow>
               fst (retry_loop st batch max_retries attempt s e) =
                 Returned (fst (snd (run_attempt st (Suc attempt) batch 0 0)))
                          (snd (snd (run_attempt st (Suc attempt) batch 0 0))))"
    if lt: "Suc attempt < max_retries"
      and thr: "fst (run_attempt st attempt batch s e)
                = Some (ClientError ProvisionedThroughputExceededException)"
  proof -
    note eq = retry_loop_throttled_retry[OF lt thr]
    from retry_loop_trace[OF lt, of st batch 0 0]
    obtain m where "snd (retry_loop st batch max_retries (Suc attempt) 0 0) =
       concat (map (\<lambda>j. [Attempt j, Sleep (2 ^ j + jitter st j)]) [Suc attempt..<Suc attempt + m])
         @ [Attempt (Suc attempt + m)]"
      by blast
    then have h: "hd (snd (retry_loop st batch max_retries (Suc attempt) 0 0)) = Attempt (Suc attempt)"
      by (simp only: hd_backoff)
    have nxt: "fst (retry_loop st batch max_retries attempt s e) =
                 Returned (fst (snd (run_attempt st (Suc attempt) batch 0 0)))
                          (snd (snd (run_attempt st (Suc attempt) batch 0 0)))"
      if "fst (run_attempt st (Suc attempt) batch 0 0) = None"
    proof -
      have "fst (retry_loop st batch max_retries (Suc attempt) 0 0) =
                 Returned (fst (snd (run_attempt st (Suc attempt) batch 0 0)))
                          (snd (snd (run_attempt st (Suc attempt) batch 0 0)))"
        using that lt
        by (subst retry_loop_unfold) (auto split: prod.splits)
      then show ?thesis using eq by simp
    qed
    show ?thesis using eq h nxt by blast
  qed
  from sleeps_retry_loop[of max_retries 0 st batch 0 0]
  obtain m where m: "m \<le> max_retries - 1"
    "sleeps (snd (process_batch_with_retry st batch max_retries)) =
       map (\<lambda>k. 2 ^ k + jitter st k) [0..<m]"
    by (auto simp: process_batch_with_retry_def)
  have srt: "sorted_wrt (<) (sleeps (snd (process_batch_with_retry st batch max_retries)))"
    unfolding m(2) by (rule sorted_backoff[OF assms])
  show ?thesis using step m srt by blast
qed

theorem throttled_attempt_backoff_witness:
  "0 \<le> jitter (throttling_once_at 2 :: nat batch_store) 0
   \<and> jitter (throttling_once_at 2 :: nat batch_store) 0 < 1
   \<and> Suc 0 < 5
   \<and> run_attempt (throttling_once_at 2) 0 [10, 20, 30 :: nat] 0 0
        = (Some (ClientError ProvisionedThroughputExceededException), 2, 0)
   \<and> retry_loop (throttling_once_at 2) [10, 20, 30 :: nat] 5 0 0 0
        = (Returned 3 0, [Attempt 0, Sleep (3 / 2), Attempt 1])"
proof -
  let ?st = "throttling_once_at 2 :: nat batch_store"
  have j: "\<forall>k. 0 \<le> jitter ?st k \<and> jitter ?st k < 1"
    by (simp add: throttling_once_at_def)
  have lt: "Suc 0 < (5::nat)" by simp
  have ra: "run_attempt ?st 0 [10, 20, 30] 0 0
      = (Some (ClientError ProvisionedThroughputExceededException), 2, 0)"
    by (simp add: run_attempt_def throttling_once_at_def)
  have ra1: "run_attempt ?st (Suc 0) [10, 20, 30] 0 0 = (None, 3, 0)"
    by (simp add: run_attempt_def throttling_once_at_def)
  have nxt: "retry_loop ?st [10, 20, 30] 5 (Suc 0) 0 0 = (Returned 3 0, [Attempt 1])"
    using ra1 by (subst retry_loop_unfold) simp
  have jit: "jitter ?st 0 = 1 / 2" by (simp add: throttling_once_at_def)
  from throttled_attempt_backoff[OF j, of 0 5 "[10, 20, 30]" 0 0] lt ra
  have "retry_loop ?st [10, 20, 30] 5 0 0 0 =
            (fst (retry_loop ?st [10, 20, 30] 5 (Suc 0) 0 0),
             Attempt 0 # Sleep (2 ^ 0 + jitter ?st 0)
               # snd (retry_loop ?st [10, 20, 30] 5 (Suc 0) 0 0))"
    by simp
  then have "retry_loop ?st [10, 20, 30] 5 0 0 0 = (Returned 3 0, [Attempt 0, Sleep (3 / 2), Attempt 1])"
    by (simp add: nxt jit)
  then show ?thesis using j lt ra by simp
qed

subsection \<open>Where the tally and the item count differ\<close>

text \<open>
  C1 (the code does not do what the claim says). 25 items, one batch. In each of the 5
  attempts the first 24 calls of \<^verbatim>\<open>put_item\<close> return and the 25th raises the throttling
  signal. The last attempt leaves \<open>local_success = 24\<close>, \<open>local_errors = 0\<close>, the loop ends
  and the worker returns \<open>(24, 0)\<close>: the tally is \<open>(24, 0)\<close> for 25 items, the item that
  was never written is counted nowhere, and \<open>error_count\<close> is 0.
\<close>

theorem throttled_out_batch_tally:
  "batch_write_items \<lparr>submit_fault = None\<rparr> (\<lambda>i. throttling_at 24) (replicate 25 (0::nat))
     = (24, 0)
   \<and> fst (batch_write_items \<lparr>submit_fault = None\<rparr> (\<lambda>i. throttling_at 24) (replicate 25 (0::nat)))
     + snd (batch_write_items \<lparr>submit_fault = None\<rparr> (\<lambda>i. throttling_at 24) (replicate 25 (0::nat)))
     \<noteq> int (length (replicate 25 (0::nat)))"
  by code_simp

text \<open>
  The same defect with a batch that is not full: every \<^verbatim>\<open>put_item\<close> returns and the
  flush at the exit of the block raises the throttling signal in each attempt. The worker
  returns \<open>(2, 0)\<close>: both items are counted as written.
\<close>

lemma throttled_out_batch_counted_as_success:
  "batch_write_items \<lparr>submit_fault = None\<rparr> (\<lambda>i. throttling_at_exit) [10, 20 :: nat] = (2, 0)"
  by code_simp


text \<open>
  What the code does on such a failure in general: the batch is left at once (no later
  attempt), the success count is 0, and the error count is the length of the batch plus
  the item errors the attempt had counted; it is the length of the batch when there were
  none.
\<close>

lemma bulk_failure_outcome:
  assumes "attempt < max_retries"
    and "fst (run_attempt st attempt batch 0 0) = Some (ClientError code)"
    and "code \<noteq> ProvisionedThroughputExceededException"
  shows "retry_loop st batch max_retries attempt 0 0 =
           (Returned 0 (snd (snd (run_attempt st attempt batch 0 0)) + int (length batch)),
            [Attempt attempt])"
proof -
  obtain s' e' where ra: "run_attempt st attempt batch 0 0 = (Some (ClientError code), s', e')"
    using assms(2) by (cases "run_attempt st attempt batch 0 0") auto
  from retry_loop_client_error[OF assms(1) ra assms(3)] ra show ?thesis by simp
qed

subsection \<open>The numeric re-encoding\<close>

lemma convert_no_float: "\<not> has_float (convert_float_to_decimal str dec v)"
  by (induction v) (auto simp: list_ex_iff)

lemma convert_float_free: "\<not> has_float v \<Longrightarrow> convert_float_to_decimal str dec v = v"
proof (induction v)
  case (PList xs)
  then have "map (convert_float_to_decimal str dec) xs = xs"
    by (intro map_idI) (auto simp: list_ex_iff)
  then show ?case by simp
next
  case (PDict kvs)
  have "map_prod id (convert_float_to_decimal str dec) kv = kv" if "kv \<in> set kvs" for kv
  proof -
    obtain k v where kv: "kv = (k, v)" by (cases kv)
    have "\<not> has_float v" using PDict.prems that kv by (force simp: list_ex_iff)
    moreover have "v \<in> Basic_BNFs.snds kv" using kv by simp
    ultimately show ?thesis using PDict.IH[OF that] kv by simp
  qed
  then have "map (map_prod id (convert_float_to_decimal str dec)) kvs = kvs"
    by (intro map_idI)
  then show ?case by simp
qed simp_all

text \<open>
  C9. For every decoded JSON value, \<^verbatim>\<open>convert_float_to_decimal\<close> replaces every float
  \<open>x\<close>, at any depth, by \<^verbatim>\<open>Decimal(str(x))\<close>, and changes nothing else: no float is
  left in the result, a value without floats comes back as it is (strings, integers,
  booleans, nulls), a list keeps its length and order with every element converted, a
  dictionary keeps its keys in order with every value converted. Everything
  \<^verbatim>\<open>load_json_file\<close> returns has gone through it, so no float reaches the store.
\<close>

theorem convert_float_to_decimal_spec:
  "\<not> has_float (convert_float_to_decimal str dec v)
   \<and> (\<not> has_float v \<longrightarrow> convert_float_to_decimal str dec v = v)
   \<and> convert_float_to_decimal str dec (PFloat x) = PDecimal (dec (str x))
   \<and> convert_float_to_decimal str dec (PStr s) = PStr s
   \<and> convert_float_to_decimal str dec (PInt i) = PInt i
   \<and> convert_float_to_decimal str dec (PBool b) = PBool b
   \<and> convert_float_to_decimal str dec PNone = PNone
   \<and> (\<exists>ys. convert_float_to_decimal str dec (PList xs) = PList ys
         \<and> length ys = length xs
         \<and> (\<forall>n < length xs. ys ! n = convert_float_to_decimal str dec (xs ! n)))
   \<and> (\<exists>kws. convert_float_to_decimal str dec (PDict kvs) = PDict kws
         \<and> map fst kws = map fst kvs
         \<and> map snd kws = map (convert_float_to_decimal str dec) (map snd kvs))
   \<and> (\<forall>w. load_json_file str dec outcome = Inr (Some w) \<longrightarrow> \<not> has_float w)"
proof -
  have load: "\<not> has_float w" if "load_json_file str dec outcome = Inr (Some w)" for w
    using that by (cases outcome) (auto simp: convert_no_float)
  show ?thesis
    using convert_no_float[of str dec v] convert_float_free[of v str dec] load
    by (simp add: comp_def)
qed

theorem convert_float_to_decimal_spec_witness:
  "\<not> has_float (PDict [(''nombre'', PStr ''wantan''), (''stock'', PInt 3)] :: (string, string) pyval)
   \<and> convert_float_to_decimal id id (PDict [(''nombre'', PStr ''wantan''), (''stock'', PInt 3)])
       = (PDict [(''nombre'', PStr ''wantan''), (''stock'', PInt 3)] :: (string, string) pyval)
   \<and> load_json_file id id (Decoded (PList [PDict [(''precio'', PFloat ''12.5'')]]))
       = Inr (Some (PList [PDict [(''precio'', PDecimal ''12.5'')]]))
   \<and> \<not> has_float (PList [PDict [(''precio'', PDecimal ''12.5'')]] :: (string, string) pyval)"
  using convert_float_to_decimal_spec[of id id
      "PDict [(''nombre'', PStr ''wantan''), (''stock'', PInt 3)]" "''12.5''" "''x''" 0 True
      "[]" "[]" "Decoded (PList [PDict [(''precio'', PFloat ''12.5'')]])"]
  by simp

subsection \<open>The purge\<close>

lemma scan_pages_first: "scan_pages sc tok (p # ps) \<Longrightarrow> sc tok = Inr p"
  by (cases ps) simp_all

lemma scan_rest_pages:
  "scan_pages sc tok (p # ps) \<Longrightarrow>
     scan_rest sc p acc = Some (Inr (acc @ concat (map page_items ps)))"
proof (induction ps arbitrary: p tok acc)
  case Nil
  then show ?case by (subst scan_rest.simps) simp
next
  case (Cons q qs)
  from Cons.prems obtain t where t: "last_evaluated_key p = Some t"
    and rest: "scan_pages sc (Some t) (q # qs)" by auto
  from scan_pages_first[OF rest] have q: "sc (Some t) = Inr q" .
  from Cons.IH[OF rest, of "acc @ page_items q"] t q
  show ?case by (subst scan_rest.simps) simp
qed

lemma build_key_present:
  assumes "map_of item pk_name \<noteq> None"
    and "\<forall>s. sk_name = Some s \<and> s \<noteq> [] \<longrightarrow> map_of item s \<noteq> None"
  shows "\<exists>key. build_key pk_name sk_name item = Inr key
           \<and> map_of key = map_of item |` key_fields pk_name sk_name"
proof -
  from assms(1) obtain v where v: "map_of item pk_name = Some v" by auto
  have one: "map_of [(pk_name, v)] = map_of item |` {pk_name}"
    using v by (auto simp: restrict_map_def fun_eq_iff)
  show ?thesis
  proof (cases sk_name)
    case None
    then show ?thesis using v one by (simp add: build_key_def key_fields_def)
  next
    case (Some s)
    show ?thesis
    proof (cases "s = []")
      case True
      then show ?thesis using v one Some by (simp add: build_key_def key_fields_def)
    next
      case False
      with assms(2) Some obtain w where w: "map_of item s = Some w" by auto
      have "map_of (AList.update s w [(pk_name, v)]) = map_of item |` {pk_name, s}"
        using v w by (auto simp: update_conv restrict_map_def fun_eq_iff)
      then show ?thesis using v w Some False by (simp add: build_key_def key_fields_def)
    qed
  qed
qed

lemma delete_loop_all:
  assumes "\<forall>item \<in> set items. map_of item pk_name \<noteq> None
             \<and> (\<forall>s. sk_name = Some s \<and> s \<noteq> [] \<longrightarrow> map_of item s \<noteq> None)"
    and "\<forall>j. del j = None"
  shows "\<exists>keys. delete_loop del pk_name sk_name j items sent = (None, sent @ keys)
           \<and> list_all2 (\<lambda>key item. map_of key = map_of item |` key_fields pk_name sk_name) keys items"
  using assms(1)
proof (induction items arbitrary: j sent)
  case Nil
  then show ?case by simp
next
  case (Cons item items)
  from build_key_present[of item pk_name sk_name] Cons.prems
  obtain key where key: "build_key pk_name sk_name item = Inr key"
    "map_of key = map_of item |` key_fields pk_name sk_name" by auto
  from Cons.IH[of "Suc j" "sent @ [key]"] Cons.prems
  obtain keys where keys: "delete_loop del pk_name sk_name (Suc j) items (sent @ [key]) = (None, (sent @ [key]) @ keys)"
    "list_all2 (\<lambda>key item. map_of key = map_of item |` key_fields pk_name sk_name) keys items"
    by auto
  show ?case
    using key keys assms(2)[rule_format, of j] by (intro exI[of _ "key # keys"]) simp
qed

text \<open>
  C8. When the scan of the table is answered page by page until a page carries no
  continuation key, every item holds the key fields and no deletion fails, the purge
  reads every page and hands to \<^verbatim>\<open>batch.delete_item\<close>, for each item found and in the order
  found, a key that holds the item's values of the partition key and, when a sort key is
  declared, of the sort key, and nothing else; it returns \<^verbatim>\<open>True\<close>. When the table does not
  exist (the scan raises \<^verbatim>\<open>ResourceNotFoundException\<close>), it returns \<^verbatim>\<open>True\<close> and deletes
  nothing.
\<close>

theorem purge_scans_all_pages_and_deletes:
  "(scan_pages (scan ps) None pages
      \<and> (\<forall>item \<in> set (concat (map page_items pages)).
            map_of item pk_name \<noteq> None
            \<and> (\<forall>s. sk_name = Some s \<and> s \<noteq> [] \<longrightarrow> map_of item s \<noteq> None))
      \<and> (\<forall>j. delete_item ps j = None) \<and> delete_exit ps = None \<longrightarrow>
    (\<exists>keys. delete_all_items_from_table ps pk_name sk_name = Some (True, keys)
        \<and> list_all2 (\<lambda>key item. map_of key = map_of item |` key_fields pk_name sk_name)
             keys (concat (map page_items pages))))
   \<and> (scan ps None = Inl (ClientError ResourceNotFoundException) \<longrightarrow>
        delete_all_items_from_table ps pk_name sk_name = Some (True, []))"
proof -
  have missing: "delete_all_items_from_table ps pk_name sk_name = Some (True, [])"
    if "scan ps None = Inl (ClientError ResourceNotFoundException)"
    using that by (simp add: delete_all_items_from_table_def)
  have full: "\<exists>keys. delete_all_items_from_table ps pk_name sk_name = Some (True, keys)
        \<and> list_all2 (\<lambda>key item. map_of key = map_of item |` key_fields pk_name sk_name)
             keys (concat (map page_items pages))"
    if chain: "scan_pages (scan ps) None pages"
      and present: "\<forall>item \<in> set (concat (map page_items pages)).
            map_of item pk_name \<noteq> None
            \<and> (\<forall>s. sk_name = Some s \<and> s \<noteq> [] \<longrightarrow> map_of item s \<noteq> None)"
      and del: "\<forall>j. delete_item ps j = None" and ex: "delete_exit ps = None"
  proof -
    from chain obtain p rest where pages: "pages = p # rest" by (cases pages) auto
    let ?items = "concat (map page_items pages)"
    have first: "scan ps None = Inr p" using chain pages scan_pages_first by blast
    have all: "scan_rest (scan ps) p (page_items p) = Some (Inr ?items)"
      using scan_rest_pages[of "scan ps" None p rest "page_items p"] chain pages by simp
    show ?thesis
    proof (cases "?items = []")
      case True
      then show ?thesis using first all
        by (simp add: delete_all_items_from_table_def del: concat_eq_Nil_conv)
    next
      case False
      from delete_loop_all[OF present del, of 0 "[]"]
      obtain keys where keys: "delete_loop (delete_item ps) pk_name sk_name 0 ?items [] = (None, keys)"
        "list_all2 (\<lambda>key item. map_of key = map_of item |` key_fields pk_name sk_name) keys ?items"
        by auto
      have "delete_all_items_from_table ps pk_name sk_name = Some (True, keys)"
        using first all False keys(1) ex
        by (simp add: delete_all_items_from_table_def del: concat_eq_Nil_conv)
      then show ?thesis using keys(2) by blast
    qed
  qed
  show ?thesis using missing full by blast
qed


theorem purge_scans_all_pages_and_deletes_witness:
  "delete_all_items_from_table two_page_table ''local_id'' (Some ''nombre'')
     = Some (True, [[(''local_id'', 1), (''nombre'', 7)],
                    [(''local_id'', 1), (''nombre'', 8)],
                    [(''local_id'', 2), (''nombre'', 7)]])
   \<and> delete_all_items_from_table missing_table ''local_id'' (Some ''nombre'') = Some (True, [])"
proof -
  let ?p1 = "\<lparr>page_items = [[(''local_id'', 1::nat), (''nombre'', 7), (''precio'', 30)],
                                 [(''local_id'', 1), (''nombre'', 8), (''precio'', 12)]],
                   last_evaluated_key = Some [(''local_id'', 1), (''nombre'', 8)]\<rparr>"
  let ?p2 = "\<lparr>page_items = [[(''local_id'', 2::nat), (''nombre'', 7), (''precio'', 31)]],
                     last_evaluated_key = None\<rparr>"
  have chain: "scan_pages (scan two_page_table) None [?p1, ?p2]"
    by (simp add: two_page_table_def two_pages_def)
  have present: "\<forall>item \<in> set (concat (map page_items [?p1, ?p2])).
            map_of item ''local_id'' \<noteq> None
            \<and> (\<forall>s. Some ''nombre'' = Some s \<and> s \<noteq> [] \<longrightarrow> map_of item s \<noteq> None)"
    by simp
  have quiet: "\<forall>j. delete_item two_page_table j = None" "delete_exit two_page_table = None"
    by (simp_all add: two_page_table_def)
  have gone: "scan missing_table None = Inl (ClientError ResourceNotFoundException)"
    by (simp add: missing_table_def)
  note t1 = purge_scans_all_pages_and_deletes[of two_page_table "[?p1, ?p2]" "''local_id''" "Some ''nombre''"]
  note t2 = purge_scans_all_pages_and_deletes[of missing_table "[]" "''local_id''" "Some ''nombre''"]
  from t1 chain present quiet
  obtain keys where keys: "delete_all_items_from_table two_page_table ''local_id'' (Some ''nombre'') = Some (True, keys)"
    by blast
  have res: "delete_all_items_from_table two_page_table ''local_id'' (Some ''nombre'')
     = Some (True, [[(''local_id'', 1), (''nombre'', 7)],
                    [(''local_id'', 1), (''nombre'', 8)],
                    [(''local_id'', 2), (''nombre'', 7)]])"
    using scan_rest_pages[OF chain, of "page_items ?p1"]
    by (simp add: delete_all_items_from_table_def two_page_table_def two_pages_def build_key_def)
  from t2 gone
  have "delete_all_items_from_table missing_table ''local_id'' (Some ''nombre'') = Some (True, [])"
    by blast
  then show ?thesis using res keys by simp
qed

subsection \<open>One table\<close>


lemma table_exists_cases:
  "table_exists w =
     (if describe_table w = None then Inr True
      else if describe_table w = Some (ClientError ResourceNotFoundException) then Inr False
      else Inl (the (describe_table w)))"
  by (auto simp: table_exists_def split: option.splits fault.splits)






end
